theory Spec2Isabelle
  imports Complex_Main "HOL-Library.Signed_Division" "HOL-Library.Multiset"
begin

section \<open>The C integer model\<close>

text \<open>
  The program computes with \<^verbatim>\<open>int\<close>, taken as the 32-bit two's-complement type of
  the mainstream ABIs. A value is a mathematical integer; every arithmetic operation checks
  that its result is representable. Signed overflow and division by zero are undefined
  behaviour in C: the model makes them an error value, so that a result \<open>Inr v\<close> says
  that the C program computes \<open>v\<close> on every conforming implementation.
\<close>

datatype error = SignedOverflow | DivisionByZero | OutOfBounds | FloatInexact

definition INT_MAX :: int where
  "INT_MAX = 2147483647"

definition INT_MIN :: int where
  "INT_MIN = - 2147483648"

definition in_int :: "int \<Rightarrow> bool" where
  "in_int v \<longleftrightarrow> INT_MIN \<le> v \<and> v \<le> INT_MAX"

definition c_int :: "int \<Rightarrow> error + int" where
  "c_int v = (if in_int v then Inr v else Inl SignedOverflow)"

definition c_add :: "int \<Rightarrow> int \<Rightarrow> error + int" where
  "c_add a b = c_int (a + b)"

definition c_sub :: "int \<Rightarrow> int \<Rightarrow> error + int" where
  "c_sub a b = c_int (a - b)"

definition c_mul :: "int \<Rightarrow> int \<Rightarrow> error + int" where
  "c_mul a b = c_int (a * b)"

text \<open>C's \<^verbatim>\<open>/\<close> and \<^verbatim>\<open>%\<close> truncate towards zero (\<open>sdiv\<close>, \<open>smod\<close>).\<close>

definition c_div :: "int \<Rightarrow> int \<Rightarrow> error + int" where
  "c_div a b = (if b = 0 then Inl DivisionByZero else c_int (a sdiv b))"

definition c_rem :: "int \<Rightarrow> int \<Rightarrow> error + int" where
  "c_rem a b =
     (if b = 0 then Inl DivisionByZero
      else if in_int (a sdiv b) then Inr (a smod b)
      else Inl SignedOverflow)"

text \<open>Sequencing: the first error ends the computation.\<close>

definition bind_result :: "error + 'a \<Rightarrow> ('a \<Rightarrow> error + 'b) \<Rightarrow> error + 'b" where
  "bind_result m f = (case m of Inl e \<Rightarrow> Inl e | Inr v \<Rightarrow> f v)"

lemma bind_result_cong [fundef_cong]:
  "m = m' \<Longrightarrow> (\<And>v. m' = Inr v \<Longrightarrow> f v = f' v) \<Longrightarrow> bind_result m f = bind_result m' f'"
  by (simp add: bind_result_def split: sum.splits)

lemma bind_result_simps [simp]:
  "bind_result (Inl e) f = Inl e"
  "bind_result (Inr v) f = f v"
  by (simp_all add: bind_result_def)

section \<open>factorial\<close>

text \<open>
  \<^verbatim>\<open>int factorial(int n) { if (n <= 1) return 1; return n * factorial(n - 1); }\<close>
\<close>

function factorial :: "int \<Rightarrow> error + int" where
  "factorial n =
     (if n \<le> 1 then Inr 1
      else bind_result (c_sub n 1) (\<lambda>m.
           bind_result (factorial m) (\<lambda>r. c_mul n r)))"
  by pat_completeness auto
termination
  by (relation "measure nat")
     (auto simp: c_sub_def c_int_def split: if_splits)

declare factorial.simps [simp del]

text \<open>
  The same recursion with a bound on the number of activations of \<^verbatim>\<open>factorial\<close>:
  \<open>None\<close> says that \<open>k\<close> activations were not enough to return.
\<close>

fun factorial_fuel :: "nat \<Rightarrow> int \<Rightarrow> (error + int) option" where
  "factorial_fuel 0 n = None"
| "factorial_fuel (Suc k) n =
     (if n \<le> 1 then Some (Inr 1)
      else case c_sub n 1 of
             Inl e \<Rightarrow> Some (Inl e)
           | Inr m \<Rightarrow> (case factorial_fuel k m of
                         None \<Rightarrow> None
                       | Some (Inl e) \<Rightarrow> Some (Inl e)
                       | Some (Inr r) \<Rightarrow> Some (c_mul n r)))"

section \<open>isPrime\<close>

text \<open>
  The loop \<^verbatim>\<open>for (int i = 5; i * i <= num; i += 6)\<close> with the test
  \<^verbatim>\<open>num % i == 0 || num % (i + 2) == 0\<close>, whose right operand is evaluated only
  when the left one is false.
\<close>

lemma int_le_square: "(i::int) \<le> i * i"
proof (cases "0 \<le> i")
  case True
  then show ?thesis
    using mult_left_mono [of 1 i i] by (cases "i = 0") auto
next
  case False
  then have "i \<le> 0" by simp
  also have "0 \<le> i * i" by simp
  finally show ?thesis .
qed

function isPrime_loop :: "int \<Rightarrow> int \<Rightarrow> error + int" where
  "isPrime_loop num i =
     bind_result (c_mul i i) (\<lambda>sq.
       if sq \<le> num then
         bind_result (c_rem num i) (\<lambda>r1.
           if r1 = 0 then Inr 0
           else bind_result (c_add i 2) (\<lambda>i2.
                bind_result (c_rem num i2) (\<lambda>r2.
                  if r2 = 0 then Inr 0
                  else bind_result (c_add i 6) (\<lambda>i'. isPrime_loop num i'))))
       else Inr 1)"
  by pat_completeness auto

termination
proof (relation "measure (\<lambda>(num, i). nat (num + 6 - i))", goal_cases)
  case 1
  show ?case by simp
next
  case (2 num i sq r1 i2 r2 i')
  then have "i * i \<le> num" and "i' = i + 6"
    by (auto simp: c_mul_def c_add_def c_int_def split: if_splits)
  with int_le_square [of i] show ?case by simp
qed

declare isPrime_loop.simps [simp del]

definition isPrime :: "int \<Rightarrow> error + int" where
  "isPrime num =
     (if num \<le> 1 then Inr 0
      else if num \<le> 3 then Inr 1
      else bind_result (c_rem num 2) (\<lambda>a.
           if a = 0 then Inr 0
           else bind_result (c_rem num 3) (\<lambda>b.
                if b = 0 then Inr 0
                else isPrime_loop num 5)))"

section \<open>reverseString\<close>

text \<open>
  Memory: the array a \<^verbatim>\<open>char *\<close> points into is the list of its bytes, the
  terminator and whatever follows it included. A read or write outside the array is
  undefined behaviour, hence an error.
\<close>

definition load :: "'a list \<Rightarrow> int \<Rightarrow> error + 'a" where
  "load a i = (if 0 \<le> i \<and> i < int (length a) then Inr (a ! nat i) else Inl OutOfBounds)"

definition store :: "'a list \<Rightarrow> int \<Rightarrow> 'a \<Rightarrow> error + 'a list" where
  "store a i v = (if 0 \<le> i \<and> i < int (length a) then Inr (a[nat i := v]) else Inl OutOfBounds)"

definition NUL :: char where
  "NUL = CHR 0x00"

text \<open>\<^verbatim>\<open>strlen\<close>: the number of bytes before the first terminator; without one it
  runs off the array.\<close>

definition c_strlen :: "char list \<Rightarrow> error + nat" where
  "c_strlen str =
     (if NUL \<in> set str then Inr (length (takeWhile (\<lambda>c. c \<noteq> NUL) str))
      else Inl OutOfBounds)"

text \<open>
  \<^verbatim>\<open>int len = strlen(str)\<close> converts a \<^verbatim>\<open>size_t\<close> to \<^verbatim>\<open>int\<close>. Out of
  range the result is implementation-defined; gcc, clang and MSVC reduce modulo \<open>2 ^ 32\<close>
  into the signed range, which is what is modelled.
\<close>

definition size_to_int :: "nat \<Rightarrow> int" where
  "size_to_int n = (let m = int n mod 2 ^ 32 in if m < 2 ^ 31 then m else m - 2 ^ 32)"

function reverse_loop :: "int \<Rightarrow> int \<Rightarrow> char list \<Rightarrow> error + char list" where
  "reverse_loop len i str =
     bind_result (c_div len 2) (\<lambda>h.
       if i < h then
         bind_result (load str i) (\<lambda>temp.
         bind_result (c_sub len 1) (\<lambda>l.
         bind_result (c_sub l i) (\<lambda>j.
         bind_result (load str j) (\<lambda>c.
         bind_result (store str i c) (\<lambda>str1.
         bind_result (store str1 j temp) (\<lambda>str2.
         bind_result (c_add i 1) (\<lambda>i'. reverse_loop len i' str2)))))))
       else Inr str)"
  by pat_completeness auto
termination
  by (relation "measure (\<lambda>(len, i, str). nat (len sdiv 2 - i))")
     (auto simp: c_div_def c_add_def c_int_def split: if_splits)

declare reverse_loop.simps [simp del]

definition reverseString :: "char list \<Rightarrow> error + char list" where
  "reverseString str =
     bind_result (c_strlen str) (\<lambda>n. reverse_loop (size_to_int n) 0 str)"

section \<open>The driver\<close>

text \<open>What \<^verbatim>\<open>printf\<close> writes for the conversions the driver uses.\<close>

definition digit :: "nat \<Rightarrow> char" where
  "digit d = ''0123456789'' ! d"

function dec_digits :: "nat \<Rightarrow> string" where
  "dec_digits n = (if n < 10 then [digit n] else dec_digits (n div 10) @ [digit (n mod 10)])"
  by pat_completeness auto
termination
  by (relation "measure id") auto

declare dec_digits.simps [simp del]

definition printf_d :: "int \<Rightarrow> string" where
  "printf_d v = (if v < 0 then ''-'' @ dec_digits (nat (- v)) else dec_digits (nat v))"

definition printf_s :: "char list \<Rightarrow> error + string" where
  "printf_s str = bind_result (c_strlen str) (\<lambda>n. Inr (take n str))"

text \<open>
  \<^verbatim>\<open>float\<close>: a value is the rational it denotes. Only the operations whose exact
  result is an integer of magnitude at most \<open>2 ^ 24\<close> are modelled: such a result is
  representable in binary32, so IEEE 754 returns it unrounded. Anything that would need
  rounding is the error \<open>FloatInexact\<close>, outside the model.
\<close>

definition float_of_int :: "int \<Rightarrow> error + rat" where
  "float_of_int v = (if \<bar>v\<bar> \<le> 2 ^ 24 then Inr (of_int v) else Inl FloatInexact)"

definition float_div :: "rat \<Rightarrow> rat \<Rightarrow> error + rat" where
  "float_div a b =
     (if b = 0 then Inl DivisionByZero
      else if of_int \<lfloor>a / b\<rfloor> = a / b \<and> \<bar>a / b\<bar> \<le> 2 ^ 24 then Inr (a / b)
      else Inl FloatInexact)"

text \<open>\<^verbatim>\<open>%.2f\<close>: the value rounded to hundredths, ties to even.\<close>

definition round_half_even :: "rat \<Rightarrow> int" where
  "round_half_even x =
     (let f = \<lfloor>x\<rfloor>; r = x - of_int f
      in if r < 1 / 2 then f else if 1 / 2 < r then f + 1 else if even f then f else f + 1)"

definition printf_2f :: "rat \<Rightarrow> string" where
  "printf_2f q =
     (let h = nat (round_half_even (\<bar>q\<bar> * 100))
      in (if q < 0 then ''-'' else []) @ dec_digits (h div 100) @ ''.''
         @ [digit (h mod 100 div 10), digit (h mod 10)])"

text \<open>\<^verbatim>\<open>for (int i = 1; i <= 10; i++) printf("%d ", i);\<close> appending to the output.\<close>

function print_loop :: "int \<Rightarrow> string \<Rightarrow> error + string" where
  "print_loop i out =
     (if i \<le> 10 then
        bind_result (c_add i 1) (\<lambda>i'. print_loop i' (out @ printf_d i @ '' ''))
      else Inr out)"
  by pat_completeness auto
termination
  by (relation "measure (\<lambda>(i, out). nat (11 - i))")
     (auto simp: c_add_def c_int_def split: if_splits)

declare print_loop.simps [simp del]

text \<open>\<^verbatim>\<open>for (int i = 0; i < size; i++) sum += numbers[i];\<close>\<close>

function sum_loop :: "int list \<Rightarrow> int \<Rightarrow> int \<Rightarrow> int \<Rightarrow> error + int" where
  "sum_loop numbers sz i s =
     (if i < sz then
        bind_result (load numbers i) (\<lambda>x.
        bind_result (c_add s x) (\<lambda>s'.
        bind_result (c_add i 1) (\<lambda>i'. sum_loop numbers sz i' s')))
      else Inr s)"
  by pat_completeness auto
termination
  by (relation "measure (\<lambda>(numbers, sz, i, s). nat (sz - i))")
     (auto simp: c_add_def c_int_def split: if_splits)

declare sum_loop.simps [simp del]

definition numbers :: "int list" where
  "numbers = [3, 7, 1, 9, 4, 6, 2, 8, 5]"

text \<open>\<^verbatim>\<open>(float)sum / size\<close> printed with \<^verbatim>\<open>%.2f\<close>.\<close>

definition average_text :: "int \<Rightarrow> int \<Rightarrow> error + string" where
  "average_text s sz =
     bind_result (float_of_int s) (\<lambda>a.
     bind_result (float_of_int sz) (\<lambda>b.
     bind_result (float_div a b) (\<lambda>avg. Inr (printf_2f avg))))"

definition nl :: string where
  "nl = [CHR 0x0A]"

text \<open>\<^verbatim>\<open>main\<close>: the text written to standard output and the exit status.\<close>

definition main :: "error + string \<times> int" where
  "main =
     (let out = ''Welcome to the C Programming Demo!'' @ nl
                @ ''==================================='' @ nl @ nl;
          num = 5
      in bind_result (factorial num) (\<lambda>f.
      let out = out @ ''1. Factorial of '' @ printf_d num @ '': '' @ printf_d f @ nl;
          testNum = 17
      in bind_result (isPrime testNum) (\<lambda>p.
      let out = out @ ''2. Is '' @ printf_d testNum @ '' prime? ''
                @ (if p \<noteq> 0 then ''Yes'' else ''No'') @ nl;
          text = ''Hello World'' @ [NUL]
      in bind_result (printf_s text) (\<lambda>s.
      let out = out @ ''3. Original string: '' @ s @ nl
      in bind_result (reverseString text) (\<lambda>text.
      bind_result (printf_s text) (\<lambda>s.
      let out = out @ ''   Reversed string: '' @ s @ nl;
          out = out @ ''4. Numbers 1-10: ''
      in bind_result (print_loop 1 out) (\<lambda>out.
      let out = out @ nl;
          sz = int (length numbers)
      in bind_result (sum_loop numbers sz 0 0) (\<lambda>sm.
      let out = out @ ''5. Array sum: '' @ printf_d sm @ nl
      in bind_result (average_text sm sz) (\<lambda>avg.
      let out = out @ ''   Array average: '' @ avg @ nl;
          out = out @ nl @ ''Program completed successfully!'' @ nl
      in Inr (out, 0))))))))))"

section \<open>Specifications\<close>

text \<open>
  Primality as the specification words it: \<open>n\<close> is greater than 1 and has no positive
  divisor other than 1 and itself.
\<close>

definition is_prime :: "int \<Rightarrow> bool" where
  "is_prime n \<longleftrightarrow> 1 < n \<and> (\<forall>d. 0 < d \<and> d dvd n \<longrightarrow> d = 1 \<or> d = n)"

text \<open>The text the driver is expected to write.\<close>

definition expected_output :: string where
  "expected_output =
     ''Welcome to the C Programming Demo!'' @ nl
     @ ''==================================='' @ nl
     @ nl
     @ ''1. Factorial of 5: 120'' @ nl
     @ ''2. Is 17 prime? Yes'' @ nl
     @ ''3. Original string: Hello World'' @ nl
     @ ''   Reversed string: dlroW olleH'' @ nl
     @ ''4. Numbers 1-10: 1 2 3 4 5 6 7 8 9 10 '' @ nl
     @ ''5. Array sum: 45'' @ nl
     @ ''   Array average: 5.00'' @ nl
     @ nl
     @ ''Program completed successfully!'' @ nl"

text \<open>
  A string of \<open>2 ^ 31\<close> characters, one more than \<open>INT_MAX\<close>, in an array of
  \<open>2 ^ 31 + 1\<close> bytes.
\<close>

definition long_text :: "char list" where
  "long_text = replicate 2147483647 (CHR ''a'') @ [CHR ''b'', NUL]"

text \<open>
  The array in which the characters from \<open>k\<close> up to \<open>n - k\<close> are reversed: the
  state of \<^verbatim>\<open>reverseString\<close>'s loop, run backwards from its end.
\<close>

definition rev_mid :: "nat \<Rightarrow> nat \<Rightarrow> 'a list \<Rightarrow> 'a list" where
  "rev_mid k n xs = take k xs @ rev (take (n - 2 * k) (drop k xs)) @ drop (n - k) xs"

section \<open>Arithmetic of the model\<close>

lemmas c_arith = c_add_def c_sub_def c_mul_def c_div_def c_rem_def c_int_def in_int_def
  INT_MAX_def INT_MIN_def

lemma sdiv_nonneg: "0 \<le> a \<Longrightarrow> 0 < b \<Longrightarrow> (a::int) sdiv b = a div b"
  by (simp add: signed_divide_int_def sgn_if)

lemma smod_nonneg: "0 \<le> a \<Longrightarrow> 0 < b \<Longrightarrow> (a::int) smod b = a mod b"
  by (simp add: signed_modulo_int_def sgn_if)

lemma sdiv_2_nonpos: "a < 0 \<Longrightarrow> (a::int) sdiv 2 \<le> 0"
  by (simp add: signed_divide_int_def sgn_if)

lemma in_int_sdiv_2: "in_int a \<Longrightarrow> in_int (a sdiv 2)"
  by (cases "0 \<le> a") (auto simp: in_int_def INT_MAX_def INT_MIN_def signed_divide_int_def sgn_if)

lemma c_rem_pos: "0 \<le> a \<Longrightarrow> in_int a \<Longrightarrow> 0 < b \<Longrightarrow> c_rem a b = Inr (a mod b)"
proof -
  assume a: "0 \<le> a" "in_int a" "0 < b"
  then have "0 \<le> a div b" by (simp add: pos_imp_zdiv_nonneg_iff)
  moreover have "a div b \<le> a div 1" using a by (intro zdiv_mono2) simp_all
  ultimately have "0 \<le> a div b" "a div b \<le> a" by simp_all
  with a show ?thesis
    by (simp add: c_rem_def sdiv_nonneg smod_nonneg in_int_def INT_MIN_def)
qed

section \<open>Properties of factorial\<close>

lemma factorial_base: "n \<le> 1 \<Longrightarrow> factorial n = Inr 1"
  by (subst factorial.simps) simp

lemma factorial_rec:
  "1 < n \<Longrightarrow> in_int n \<Longrightarrow> factorial n = bind_result (factorial (n - 1)) (c_mul n)"
  by (subst factorial.simps) (simp add: c_arith)

lemma factorial_values:
  "factorial 1 = Inr 1" "factorial 2 = Inr 2" "factorial 3 = Inr 6" "factorial 4 = Inr 24"
  "factorial 5 = Inr 120" "factorial 6 = Inr 720" "factorial 7 = Inr 5040"
  "factorial 8 = Inr 40320" "factorial 9 = Inr 362880" "factorial 10 = Inr 3628800"
  "factorial 11 = Inr 39916800" "factorial 12 = Inr 479001600"
  by (simp_all add: factorial_base factorial_rec c_arith)

text \<open>\<open>13!\<close> is 6227020800, past \<open>INT_MAX\<close>: from 13 on the product overflows.\<close>

lemma factorial_13: "factorial 13 = Inl SignedOverflow"
  by (simp add: factorial_rec factorial_values c_arith)

lemma factorial_overflow: "13 \<le> n \<Longrightarrow> factorial n = Inl SignedOverflow"
proof (induction "nat (n - 13)" arbitrary: n)
  case 0
  then have "n = 13" by simp
  then show ?case by (simp add: factorial_13)
next
  case (Suc k)
  then have n: "14 \<le> n" and k: "k = nat (n - 1 - 13)" by simp_all
  have prev: "factorial (n - 1) = Inl SignedOverflow"
    using Suc.hyps(1) [OF k] n by simp
  show ?case
  proof (cases "in_int n")
    case True
    with n prev show ?thesis by (simp add: factorial_rec)
  next
    case False
    with n prev show ?thesis
      by (subst factorial.simps) (auto simp: c_sub_def c_int_def)
  qed
qed

text \<open>
  C3: for every integer \<open>n \<le> 1\<close> (0, 1 and every negative \<open>n\<close>) \<^verbatim>\<open>factorial(n)\<close>
  returns 1.
\<close>

theorem factorial_le_one: "n \<le> 1 \<Longrightarrow> factorial n = Inr 1"
  by (subst factorial.simps) simp

theorem factorial_le_one_witness: "(- 3 :: int) \<le> 1 \<and> factorial (- 3) = Inr 1"
  using factorial_le_one [of "- 3"] by simp

text \<open>
  C4: for every \<open>n \<ge> 2\<close> in the range where nothing overflows, which is \<open>n \<le> 12\<close>,
  \<^verbatim>\<open>factorial(n)\<close> returns \<open>n\<close> times what \<^verbatim>\<open>factorial(n - 1)\<close> returns; and
  \<^verbatim>\<open>factorial(5)\<close> returns 120.
\<close>

theorem factorial_recurrence:
  "(2 \<le> n \<and> n \<le> 12 \<longrightarrow> (\<exists>r. factorial (n - 1) = Inr r \<and> factorial n = Inr (n * r)))
   \<and> factorial 5 = Inr 120"
proof -
  have "\<exists>r. factorial (n - 1) = Inr r \<and> factorial n = Inr (n * r)" if "2 \<le> n" "n \<le> 12"
  proof -
    from that have "n \<in> {12, 11, 10, 9, 8, 7, 6, 5, 4, 3, 2}" by simp arith
    then show ?thesis by (auto simp: factorial_values)
  qed
  then show ?thesis by (simp add: factorial_values)
qed

theorem factorial_recurrence_witness:
  "(2 :: int) \<le> 7 \<and> (7 :: int) \<le> 12
   \<and> (\<exists>r. factorial (7 - 1) = Inr r \<and> factorial 7 = Inr (7 * r))"
  using factorial_recurrence [of 7] by simp

text \<open>
  C9: \<^verbatim>\<open>factorial\<close> returns on every \<^verbatim>\<open>int\<close>, negative ones included: one
  activation is enough when \<open>n \<le> 1\<close>, and otherwise \<open>n - 1\<close> recursive calls after the
  first activation reach the base case; with fewer activations the call has not returned.
\<close>

theorem factorial_terminates:
  "in_int n \<Longrightarrow> factorial_fuel k n = (if k \<le> nat (n - 1) then None else Some (factorial n))"
proof (induction k arbitrary: n)
  case 0
  show ?case by simp
next
  case (Suc k)
  show ?case
  proof (cases "n \<le> 1")
    case True
    then show ?thesis by (simp add: factorial_base)
  next
    case False
    with Suc.prems have r: "in_int (n - 1)" and s: "c_sub n 1 = Inr (n - 1)"
      by (auto simp: c_arith)
    have eq: "(Suc k \<le> nat (n - 1)) = (k \<le> nat (n - 1 - 1))"
      using False by auto
    from False Suc.prems show ?thesis
      by (simp add: s Suc.IH [OF r] eq factorial_rec bind_result_def split: sum.splits)
  qed
qed

theorem factorial_terminates_witness:
  "in_int 5 \<and> factorial_fuel 4 5 = None \<and> factorial_fuel 5 5 = Some (Inr 120)
   \<and> in_int (- 2) \<and> factorial_fuel 1 (- 2) = Some (Inr 1)"
  using factorial_terminates [of 5 4] factorial_terminates [of 5 5]
    factorial_terminates [of "- 2" 1]
  by (simp add: in_int_def INT_MAX_def INT_MIN_def factorial_values factorial_base)

section \<open>Properties of isPrime\<close>

lemma isPrime_loop_overflow: "\<not> in_int (i * i) \<Longrightarrow> isPrime_loop num i = Inl SignedOverflow"
  by (subst isPrime_loop.simps) (simp add: c_mul_def c_int_def)

lemma isPrime_loop_exit: "in_int (i * i) \<Longrightarrow> num < i * i \<Longrightarrow> isPrime_loop num i = Inr 1"
  by (subst isPrime_loop.simps) (simp add: c_mul_def c_int_def)

lemma isPrime_loop_unfold:
  assumes "5 \<le> i" "i * i \<le> num" "in_int num"
  shows "isPrime_loop num i
         = (if i dvd num \<or> (i + 2) dvd num then Inr 0 else isPrime_loop num (i + 6))"
proof -
  have "5 * i \<le> i * i" using assms(1) by (intro mult_right_mono) simp_all
  with assms have b: "0 \<le> i * i" "i + 6 \<le> num" "i * i \<le> INT_MAX" "0 \<le> num"
    "num \<le> INT_MAX"
    unfolding in_int_def by linarith+
  then have r: "in_int (i * i)" "in_int (i + 2)" "in_int (i + 6)"
    using assms(1) unfolding in_int_def INT_MIN_def by linarith+
  have m: "c_rem num i = Inr (num mod i)" "c_rem num (i + 2) = Inr (num mod (i + 2))"
    using assms(1,3) b(4) by (simp_all add: c_rem_pos)
  show ?thesis
    using assms(2) r
    by (subst isPrime_loop.simps) (simp add: c_mul_def c_add_def c_int_def m dvd_eq_mod_eq_0)
qed

lemma no_small_divisor_prime:
  assumes "1 < num" "num < i * i" "0 \<le> i" "\<forall>d. 1 < d \<and> d < i \<longrightarrow> \<not> d dvd num"
  shows "is_prime num"
  unfolding is_prime_def
proof (intro conjI allI impI)
  show "1 < num" by fact
  fix d assume d: "0 < d \<and> d dvd num"
  then obtain e where e: "num = d * e" by (auto elim: dvdE)
  with d assms(1) have e0: "0 < e" using zero_less_mult_pos [of d e] by simp
  show "d = 1 \<or> d = num"
  proof (rule ccontr)
    assume "\<not> (d = 1 \<or> d = num)"
    with d e e0 have d1: "1 < d" and e1: "1 < e" by auto
    have "d < i \<or> e < i"
    proof (rule ccontr)
      assume "\<not> (d < i \<or> e < i)"
      then have "i * i \<le> d * e" using assms(3) by (intro mult_mono) simp_all
      with assms(2) e show False by simp
    qed
    moreover have "d dvd num" "e dvd num" using e by simp_all
    ultimately show False using assms(4) d1 e1 by blast
  qed
qed

lemma proper_divisor_not_prime:
  assumes "1 < d" "d < n" "d dvd n"
  shows "\<not> is_prime n"
proof
  assume "is_prime n"
  then have "\<forall>e. 0 < e \<and> e dvd n \<longrightarrow> e = 1 \<or> e = n" by (simp add: is_prime_def)
  moreover have "0 < d" using assms(1) by simp
  ultimately have "d = 1 \<or> d = n" using assms(3) by blast
  with assms(1,2) show False by simp
qed

lemma square_bound: "0 \<le> i \<Longrightarrow> i * i \<le> 2147483647 \<Longrightarrow> i \<le> (46340::int)"
proof (rule ccontr)
  assume "0 \<le> i" "i * i \<le> 2147483647" "\<not> i \<le> 46340"
  then have "46341 * 46341 \<le> i * i" by (intro mult_mono) simp_all
  with \<open>i * i \<le> 2147483647\<close> show False by simp
qed

lemma isPrime_loop_correct:
  assumes "in_int num" "3 < num" "5 \<le> i" "i mod 6 = 5" "i \<le> 46343"
    and "\<forall>d. 1 < d \<and> d < i \<longrightarrow> \<not> d dvd num"
    and "i = 5 \<or> (i - 6) * (i - 6) \<le> num"
  shows "isPrime_loop num i
         = (if is_prime num then (if 2147117569 \<le> num then Inl SignedOverflow else Inr 1)
            else Inr 0)"
  using assms
proof (induction "nat (46343 - i)" arbitrary: i rule: less_induct)
  case less
  note inv = less.prems(6)
  have num: "num \<le> 2147483647" using less.prems(1) by (simp add: in_int_def INT_MAX_def)
  show ?case
  proof (cases "i * i \<le> num")
    case True
    with num less.prems(3) have "i \<le> 46340" by (intro square_bound) simp_all
    with less.prems(4) have i: "i \<le> 46337" by presburger
    have "5 * i \<le> i * i" using less.prems(3) by (intro mult_right_mono) simp_all
    with True less.prems(3) have lt: "i + 2 < num" by linarith
    show ?thesis
    proof (cases "i dvd num \<or> (i + 2) dvd num")
      case d: True
      then have "\<not> is_prime num"
        using lt less.prems(3) proper_divisor_not_prime [of i num]
          proper_divisor_not_prime [of "i + 2" num] by auto
      with d True less.prems show ?thesis by (simp add: isPrime_loop_unfold)
    next
      case d: False
      have inv': "\<forall>d. 1 < d \<and> d < i + 6 \<longrightarrow> \<not> d dvd num"
      proof (intro allI impI)
        fix e assume e: "1 < e \<and> e < i + 6"
        have two: "\<not> 2 dvd num" and three: "\<not> 3 dvd num"
          using inv less.prems(3) by simp_all
        consider "e < i" | "e = i" | "e = i + 1" | "e = i + 2" | "e = i + 3" | "e = i + 4" | "e = i + 5"
          using e by linarith
        then show "\<not> e dvd num"
        proof cases
          case 1 with inv e show ?thesis by simp
        next
          case 2 with d show ?thesis by simp
        next
          case 3
          with less.prems(4) have "2 dvd e" by presburger
          with two show ?thesis using dvd_trans by blast
        next
          case 4 with d show ?thesis by simp
        next
          case 5
          with less.prems(4) have "2 dvd e" by presburger
          with two show ?thesis using dvd_trans by blast
        next
          case 6
          with less.prems(4) have "3 dvd e" by presburger
          with three show ?thesis using dvd_trans by blast
        next
          case 7
          with less.prems(4) have "2 dvd e" by presburger
          with two show ?thesis using dvd_trans by blast
        qed
      qed
      have "isPrime_loop num (i + 6)
            = (if is_prime num then (if 2147117569 \<le> num then Inl SignedOverflow else Inr 1)
               else Inr 0)"
      proof (rule less.hyps)
        show "nat (46343 - (i + 6)) < nat (46343 - i)" using i by simp
        show "(i + 6) mod 6 = 5" using less.prems(4) by presburger
        show "i + 6 \<le> 46343" using i by simp
        show "i + 6 = 5 \<or> (i + 6 - 6) * (i + 6 - 6) \<le> num" using True by simp
      qed (use less.prems inv' in simp_all)
      with d True less.prems show ?thesis by (simp add: isPrime_loop_unfold)
    qed
  next
    case False
    then have lt: "num < i * i" by simp
    have p: "is_prime num"
      using less.prems(2,3) lt inv by (intro no_small_divisor_prime [of num i]) simp_all
    show ?thesis
    proof (cases "i * i \<le> 2147483647")
      case True
      with less.prems(3) have "i \<le> 46340" by (intro square_bound) simp_all
      with less.prems(4) have i: "i \<le> 46337" by presburger
      then have "i * i \<le> 46337 * 46337" using less.prems(3) by (intro mult_mono) simp_all
      with lt have "num < 2147117569" by simp
      moreover have "0 \<le> i * i" by simp
      then have "in_int (i * i)" using True unfolding in_int_def INT_MAX_def INT_MIN_def by linarith
      ultimately show ?thesis using p lt by (simp add: isPrime_loop_exit)
    next
      case False
      then have o: "\<not> in_int (i * i)" by (simp add: in_int_def INT_MAX_def)
      have "46341 \<le> i"
      proof (rule ccontr)
        assume "\<not> 46341 \<le> i"
        then have "i * i \<le> 46340 * 46340" using less.prems(3) by (intro mult_mono) simp_all
        with False show False by simp
      qed
      with less.prems(4,5) have "i = 46343" by presburger
      with less.prems(7) have "2147117569 \<le> num" by simp
      with p o show ?thesis by (simp add: isPrime_loop_overflow)
    qed
  qed
qed

lemma is_prime_2_3: "is_prime 2" "is_prime 3"
proof -
  have "d = 1 \<or> d = 2" if "0 < d" "d dvd 2" for d :: int
  proof -
    from that have "d \<le> 2" by (intro zdvd_imp_le) simp_all
    with that show ?thesis by (cases "d = 1") auto
  qed
  then show "is_prime 2" by (simp add: is_prime_def)
  have "d = 1 \<or> d = 3" if "0 < d" "d dvd 3" for d :: int
  proof -
    from that have "d \<le> 3" by (intro zdvd_imp_le) simp_all
    with that(1) have "d = 1 \<or> d = 2 \<or> d = 3" by linarith
    with that(2) show ?thesis by auto
  qed
  then show "is_prime 3" by (simp add: is_prime_def)
qed

lemma isPrime_characterisation:
  assumes "in_int num"
  shows "isPrime num
         = (if is_prime num then (if 2147117569 \<le> num then Inl SignedOverflow else Inr 1)
            else Inr 0)"
proof -
  consider "num \<le> 1" | "num = 2" | "num = 3" | "3 < num" by linarith
  then show ?thesis
  proof cases
    case 1
    then show ?thesis by (simp add: isPrime_def is_prime_def)
  next
    case 2
    then show ?thesis by (simp add: isPrime_def is_prime_2_3)
  next
    case 3
    then show ?thesis by (simp add: isPrime_def is_prime_2_3)
  next
    case 4
    then have r: "c_rem num 2 = Inr (num mod 2)" "c_rem num 3 = Inr (num mod 3)"
      using assms by (simp_all add: c_rem_pos)
    show ?thesis
    proof (cases "2 dvd num \<or> 3 dvd num")
      case True
      then have "\<not> is_prime num"
        using 4 proper_divisor_not_prime [of 2 num] proper_divisor_not_prime [of 3 num]
        by auto
      with True 4 show ?thesis
        by (auto simp: isPrime_def r dvd_eq_mod_eq_0)
    next
      case False
      have inv: "\<forall>d. 1 < d \<and> d < 5 \<longrightarrow> \<not> d dvd num"
      proof (intro allI impI)
        fix d :: int assume "1 < d \<and> d < 5"
        then consider "d = 2" | "d = 3" | "d = 4" by linarith
        then show "\<not> d dvd num"
        proof cases
          case 3
          have "(2::int) dvd 4" by simp
          with 3 False show ?thesis using dvd_trans by blast
        qed (use False in simp_all)
      qed
      have "isPrime_loop num 5
            = (if is_prime num then (if 2147117569 \<le> num then Inl SignedOverflow else Inr 1)
               else Inr 0)"
        using assms 4 inv by (intro isPrime_loop_correct) simp_all
      with False 4 show ?thesis
        by (simp add: isPrime_def r dvd_eq_mod_eq_0)
    qed
  qed
qed

lemma isPrime_below:
  "in_int num \<Longrightarrow> num < 2147117569 \<Longrightarrow> isPrime num = Inr (if is_prime num then 1 else 0)"
  by (simp add: isPrime_characterisation)

lemma isPrime_composite: "in_int num \<Longrightarrow> \<not> is_prime num \<Longrightarrow> isPrime num = Inr 0"
  by (simp add: isPrime_characterisation)

lemma isPrime_examples:
  "num \<le> 1 \<Longrightarrow> isPrime num = Inr 0" "isPrime 17 = Inr 1" "isPrime 18 = Inr 0"
  by (simp_all add: isPrime_def c_rem_pos isPrime_loop_exit in_int_def INT_MAX_def INT_MIN_def)

subsection \<open>The largest int is prime\<close>

text \<open>
  \<open>2147483647\<close> is \<open>2 ^ 31 - 1\<close>. A prime \<open>p\<close> dividing it has \<open>2 ^ 31 = 1\<close> modulo
  \<open>p\<close>, and \<open>2 ^ (p - 1) = 1\<close> by Fermat's little theorem, so 31 divides \<open>p - 1\<close> and
  \<open>p\<close> is \<open>62 * k + 1\<close>. None of the 747 numbers of that form up to 46340 divides it.
\<close>

definition prime_nat :: "nat \<Rightarrow> bool" where
  "prime_nat p \<longleftrightarrow> 1 < p \<and> (\<forall>d. d dvd p \<longrightarrow> d = 1 \<or> d = p)"

lemma prime_factor_nat: "1 < n \<Longrightarrow> \<exists>p. prime_nat p \<and> p dvd n"
proof (induction n rule: less_induct)
  case (less n)
  show ?case
  proof (cases "prime_nat n")
    case True
    then show ?thesis by auto
  next
    case False
    with less.prems obtain d where d: "d dvd n" "d \<noteq> 1" "d \<noteq> n"
      by (auto simp: prime_nat_def)
    with less.prems have "d \<le> n" "d \<noteq> 0" by (auto intro: dvd_imp_le)
    with d have "1 < d" "d < n" by simp_all
    with less.IH [of d] obtain p where "prime_nat p" "p dvd d" by blast
    with d(1) show ?thesis using dvd_trans by blast
  qed
qed

lemma prime_nat_coprime:
  assumes "prime_nat p" "0 < k" "k < p"
  shows "coprime p k"
proof -
  have "gcd p k dvd p" by simp
  with assms(1) have "gcd p k = 1 \<or> gcd p k = p" by (simp add: prime_nat_def)
  moreover have "gcd p k \<le> k" using assms(2) by (intro dvd_imp_le) simp_all
  ultimately have "gcd p k = 1" using assms(3) by auto
  then show ?thesis by (simp add: coprime_iff_gcd_eq_1)
qed

lemma prime_nat_dvd_choose:
  assumes "prime_nat p" "0 < k" "k < p"
  shows "p dvd (p choose k)"
proof -
  from assms obtain n j where p: "p = Suc n" and k: "k = Suc j"
    by (metis Suc_pred less_trans)
  have "k * (p choose k) = p * (n choose j)"
    unfolding p k by (rule Suc_times_binomial)
  then have "p dvd k * (p choose k)" by (simp only: dvd_triv_left)
  with prime_nat_coprime [OF assms] show ?thesis
    by (simp add: coprime_dvd_mult_right_iff)
qed

lemma fermat_2:
  assumes "prime_nat p"
  shows "p dvd 2 ^ p - (2::nat)"
proof -
  have p: "1 < p" using assms by (simp add: prime_nat_def)
  have split: "{..p} = insert 0 (insert p {1..<p})" using p by auto
  have "(2::nat) ^ p = (\<Sum>k\<le>p. p choose k)" by (simp add: choose_row_sum)
  also have "\<dots> = 2 + (\<Sum>k\<in>{1..<p}. p choose k)"
    using p by (simp add: split)
  finally have "2 ^ p - (2::nat) = (\<Sum>k\<in>{1..<p}. p choose k)" by simp
  moreover have "p dvd (\<Sum>k\<in>{1..<p}. p choose k)"
    by (rule dvd_sum) (simp add: prime_nat_dvd_choose [OF assms])
  ultimately show ?thesis by simp
qed

lemma fermat_2_mod:
  assumes "prime_nat p" "odd p"
  shows "2 ^ (p - 1) mod p = (1::nat)"
proof -
  have p: "1 < p" using assms by (simp add: prime_nat_def)
  then obtain n where n: "p = Suc n" by (metis Suc_pred less_trans zero_less_one)
  have "2 ^ p - (2::nat) = 2 * (2 ^ n - 1)" by (simp add: n diff_mult_distrib2)
  with fermat_2 [OF assms(1)] have "p dvd 2 * (2 ^ n - 1)" by simp
  moreover have "coprime p 2" using assms(2) by simp
  ultimately have "p dvd 2 ^ n - 1" by (simp add: coprime_dvd_mult_right_iff)
  then obtain m where "2 ^ n - 1 = p * m" by (auto elim: dvdE)
  moreover have "1 \<le> (2::nat) ^ n" by simp
  ultimately have "(2::nat) ^ n = 1 + p * m" by linarith
  moreover have "p - 1 = n" by (simp add: n)
  moreover have "(1 + p * m) mod p = 1 mod p" by (rule mod_mult_self2)
  moreover have "1 mod p = 1" using p by simp
  ultimately show ?thesis by simp
qed

lemma pow_mod_step:
  assumes "1 < p" "2 ^ a mod p = (1::nat)" "2 ^ b mod p = 1"
  shows "2 ^ (a mod b) mod p = 1"
proof -
  have "(2::nat) ^ a = 2 ^ (b * (a div b) + a mod b)" by simp
  also have "\<dots> = (2 ^ b) ^ (a div b) * 2 ^ (a mod b)" by (simp only: power_add power_mult)
  finally have "2 ^ a mod p = ((2 ^ b mod p) ^ (a div b) mod p * (2 ^ (a mod b) mod p)) mod p"
    by (simp add: mod_mult_eq power_mod)
  with assms show ?thesis by simp
qed

lemma pow_mod_gcd:
  assumes "1 < p"
  shows "2 ^ a mod p = (1::nat) \<Longrightarrow> 2 ^ b mod p = 1 \<Longrightarrow> 2 ^ gcd a b mod p = 1"
proof (induction a b rule: gcd_nat_induct)
  case (base m)
  then show ?case by simp
next
  case (step m n)
  from pow_mod_step [OF assms step.prems] have "2 ^ (m mod n) mod p = 1" .
  with step have "2 ^ gcd n (m mod n) mod p = 1" by simp
  then show ?case by (simp add: gcd_red_nat [of m n])
qed

lemma dvd_31: "d dvd (31::nat) \<Longrightarrow> d = 1 \<or> d = 31"
proof (rule ccontr)
  assume d: "d dvd 31" and n: "\<not> (d = 1 \<or> d = 31)"
  then have "d \<le> 31" by (intro dvd_imp_le) simp_all
  moreover have "d \<noteq> 0" using d by (intro notI) simp
  ultimately have "2 \<le> d \<and> d < 31" using n by linarith
  then have "d \<in> set [2..<31]" by (simp only: set_upt atLeastLessThan_iff)
  then have "\<not> d dvd 31" by (simp, elim disjE) simp_all
  with d show False by simp
qed

lemma mersenne_31_factor:
  assumes "prime_nat p" "p dvd (2147483647::nat)"
  shows "\<exists>k. p = 62 * k + 1"
proof -
  have p: "1 < p" using assms by (simp add: prime_nat_def)
  have "odd (2147483647::nat)" by simp
  with assms(2) have odd: "odd p" using dvd_trans by blast
  from assms(2) obtain c where c: "2147483647 = p * c" unfolding dvd_def by blast
  have e: "(2::nat) ^ 31 = 1 + p * c" by (simp flip: c)
  have "(1 + p * c) mod p = 1 mod p" by (rule mod_mult_self2)
  moreover have "1 mod p = 1" using p by simp
  ultimately have a: "2 ^ 31 mod p = (1::nat)" by (simp only: e)
  have b: "2 ^ (p - 1) mod p = (1::nat)" by (rule fermat_2_mod [OF assms(1) odd])
  have g: "2 ^ gcd 31 (p - 1) mod p = (1::nat)" by (rule pow_mod_gcd [OF p a b])
  have "gcd 31 (p - 1) dvd 31" by simp
  then have "gcd 31 (p - 1) = 1 \<or> gcd 31 (p - 1) = 31" by (rule dvd_31)
  moreover have "gcd 31 (p - 1) \<noteq> 1"
  proof
    assume "gcd 31 (p - 1) = 1"
    with g have "2 mod p = (1::nat)" by simp
    moreover have "2 < p" using p odd by (cases "p = 2") auto
    ultimately show False by simp
  qed
  ultimately have t: "31 dvd p - 1" by (metis gcd_dvd2)
  have two: "2 dvd p - 1" using odd p by simp
  have "coprime (2::nat) 31" by simp
  with two t have "2 * 31 dvd p - 1" by (rule divides_mult)
  then obtain k where "p - 1 = 62 * k" unfolding dvd_def by auto
  with p have "p = 62 * k + 1" by simp
  then show ?thesis ..
qed

function no_factor_upto :: "nat \<Rightarrow> nat \<Rightarrow> nat \<Rightarrow> nat \<Rightarrow> bool" where
  "no_factor_upto n s d hi =
     (if hi < d \<or> s = 0 then True else \<not> d dvd n \<and> no_factor_upto n s (d + s) hi)"
  by pat_completeness auto
termination
  by (relation "measure (\<lambda>(n, s, d, hi). hi + 1 - d)") auto

declare no_factor_upto.simps [simp del]

lemma no_factor_upto_stop: "hi < d \<Longrightarrow> no_factor_upto n s d hi"
  by (subst no_factor_upto.simps) simp

lemma no_factor_upto_step:
  "d \<le> hi \<Longrightarrow> 0 < s \<Longrightarrow> n mod d \<noteq> 0
   \<Longrightarrow> no_factor_upto n s d hi = no_factor_upto n s (d + s) hi"
  by (subst no_factor_upto.simps) (simp add: dvd_eq_mod_eq_0)

lemma no_factor_upto_sound:
  "no_factor_upto n s d hi \<Longrightarrow> 0 < s \<Longrightarrow> d + s * j \<le> hi \<Longrightarrow> \<not> (d + s * j) dvd n"
proof (induction j arbitrary: d)
  case 0
  then show ?case by (subst (asm) no_factor_upto.simps) simp
next
  case (Suc j)
  from Suc.prems have "no_factor_upto n s (d + s) hi"
    by (subst (asm) no_factor_upto.simps) (simp split: if_splits)
  from Suc.IH [OF this Suc.prems(2)] Suc.prems(3) show ?case
    by (simp add: add.assoc)
qed

lemma mersenne_31_check:
  "no_factor_upto 2147483647 62 63 7812"
  "no_factor_upto 2147483647 62 7813 15562"
  "no_factor_upto 2147483647 62 15563 23312"
  "no_factor_upto 2147483647 62 23313 31062"
  "no_factor_upto 2147483647 62 31063 38812"
  "no_factor_upto 2147483647 62 38813 46340"
  by (simp_all add: no_factor_upto_step no_factor_upto_stop)

lemma mersenne_31_no_62k1:
  assumes "1 \<le> k" "62 * k + 1 \<le> 46340"
  shows "\<not> (62 * k + 1) dvd (2147483647::nat)"
proof -
  have r: "\<not> (62 * k + 1) dvd (2147483647::nat)"
    if "no_factor_upto 2147483647 62 (62 * a + 1) hi" "a \<le> k" "62 * k + 1 \<le> hi" for a hi
  proof -
    from that(2) have "62 * a + 1 + 62 * (k - a) = 62 * k + 1" by simp
    with no_factor_upto_sound [OF that(1), of "k - a"] that(3) show ?thesis by simp
  qed
  consider "k < 126" | "126 \<le> k" "k < 251" | "251 \<le> k" "k < 376" | "376 \<le> k" "k < 501"
    | "501 \<le> k" "k < 626" | "626 \<le> k"
    by linarith
  then show ?thesis
  proof cases
    case 1
    with assms show ?thesis using mersenne_31_check(1) by (intro r [of 1 7812]) simp_all
  next
    case 2
    then show ?thesis using mersenne_31_check(2) by (intro r [of 126 15562]) simp_all
  next
    case 3
    then show ?thesis using mersenne_31_check(3) by (intro r [of 251 23312]) simp_all
  next
    case 4
    then show ?thesis using mersenne_31_check(4) by (intro r [of 376 31062]) simp_all
  next
    case 5
    then show ?thesis using mersenne_31_check(5) by (intro r [of 501 38812]) simp_all
  next
    case 6
    with assms show ?thesis using mersenne_31_check(6) by (intro r [of 626 46340]) simp_all
  qed
qed

lemma mersenne_31_no_small_factor:
  assumes "1 < d" "d \<le> 46340"
  shows "\<not> d dvd (2147483647::nat)"
proof
  assume d: "d dvd 2147483647"
  from prime_factor_nat [OF assms(1)] obtain p where p: "prime_nat p" "p dvd d" by blast
  with d have pm: "p dvd 2147483647" using dvd_trans by blast
  from p(2) assms have "p \<le> 46340" using dvd_imp_le [of p d] by simp
  moreover from mersenne_31_factor [OF p(1) pm] obtain k where k: "p = 62 * k + 1" by blast
  moreover have "1 \<le> k" using p(1) k by (cases k) (simp_all add: prime_nat_def)
  ultimately show False using mersenne_31_no_62k1 [of k] pm by simp
qed

lemma is_prime_INT_MAX: "is_prime 2147483647"
proof (rule no_small_divisor_prime [of _ 46341])
  show "\<forall>d. 1 < d \<and> d < 46341 \<longrightarrow> \<not> d dvd (2147483647::int)"
  proof (intro allI impI)
    fix d :: int assume d: "1 < d \<and> d < 46341"
    then have "1 < nat d" "nat d \<le> 46340" by linarith+
    then have "\<not> nat d dvd (2147483647::nat)" by (rule mersenne_31_no_small_factor)
    moreover have "d = int (nat d)" using d by simp
    moreover have "(2147483647::int) = int 2147483647" by simp
    ultimately show "\<not> d dvd 2147483647" by (metis int_dvd_int_iff)
  qed
qed simp_all

text \<open>
  C1: \<^verbatim>\<open>isPrime\<close> is claimed to return true exactly on the primes, for every
  \<^verbatim>\<open>int\<close>. \<open>INT_MAX = 2147483647\<close> is prime, and \<^verbatim>\<open>isPrime(2147483647)\<close> does
  not return true: the loop reaches \<open>i = 46343\<close>, where \<^verbatim>\<open>i * i\<close> is 2147673649 and
  overflows.
\<close>

theorem isPrime_INT_MAX:
  "is_prime 2147483647 \<and> isPrime 2147483647 = Inl SignedOverflow"
  using isPrime_characterisation [of 2147483647] is_prime_INT_MAX
  by (simp add: in_int_def INT_MAX_def INT_MIN_def)

theorem isPrime_INT_MAX_witness: "isPrime 2147483647 \<noteq> Inr 1"
  using isPrime_INT_MAX by simp

section \<open>Properties of reverseString\<close>

lemma load_int: "k < length a \<Longrightarrow> load a (int k) = Inr (a ! k)"
  by (simp add: load_def)

lemma store_int: "k < length a \<Longrightarrow> store a (int k) v = Inr (a[k := v])"
  by (simp add: store_def)

lemma reverse_loop_stop: "in_int len \<Longrightarrow> len sdiv 2 \<le> i \<Longrightarrow> reverse_loop len i str = Inr str"
  by (subst reverse_loop.simps) (simp add: c_div_def c_int_def in_int_sdiv_2)

lemma reverse_loop_step:
  assumes "in_int (int n)" "k < n div 2" "n \<le> length str"
  shows "reverse_loop (int n) (int k) str
         = reverse_loop (int n) (int (Suc k)) (str[k := str ! (n - Suc k), n - Suc k := str ! k])"
proof -
  have h: "c_div (int n) 2 = Inr (int (n div 2))"
    using assms(1) in_int_sdiv_2 [of "int n"] by (simp add: c_div_def c_int_def sdiv_nonneg zdiv_int)
  have lt: "int k < int (n div 2)" using assms(2) by simp
  have s1: "c_sub (int n) 1 = Inr (int (n - 1))"
    using assms(1,2) by (auto simp: c_sub_def c_int_def in_int_def INT_MAX_def INT_MIN_def)
  have s2: "c_sub (int (n - 1)) (int k) = Inr (int (n - Suc k))"
    using assms(1,2) by (auto simp: c_sub_def c_int_def in_int_def INT_MAX_def INT_MIN_def)
  have a1: "c_add (int k) 1 = Inr (int (Suc k))"
    using assms(1,2) by (auto simp: c_add_def c_int_def in_int_def INT_MAX_def INT_MIN_def)
  have b: "k < length str" "n - Suc k < length str"
    using assms(2,3) by linarith+
  have l1: "load str (int k) = Inr (str ! k)"
    and l2: "load str (int (n - Suc k)) = Inr (str ! (n - Suc k))"
    using b by (simp_all add: load_int)
  have t1: "store str (int k) (str ! (n - Suc k)) = Inr (str[k := str ! (n - Suc k)])"
    using b by (simp add: store_int)
  have t2: "store (str[k := str ! (n - Suc k)]) (int (n - Suc k)) (str ! k)
            = Inr (str[k := str ! (n - Suc k), n - Suc k := str ! k])"
    using b by (simp add: store_int)
  show ?thesis
    by (subst reverse_loop.simps)
       (simp only: h lt s1 s2 a1 l1 l2 t1 t2 bind_result_simps if_True)
qed

lemma length_rev_mid:
  assumes "k \<le> n div 2" "n \<le> length xs"
  shows "length (rev_mid k n xs) = length xs"
proof -
  from assms have "min (length xs) k = k" "min (length xs - k) (n - 2 * k) = n - 2 * k"
    "k + ((n - 2 * k) + (length xs - (n - k))) = length xs"
    by linarith+
  then show ?thesis by (simp add: rev_mid_def)
qed

lemma nth_rev_mid:
  assumes "k \<le> n div 2" "n \<le> length xs" "j < length xs"
  shows "rev_mid k n xs ! j = (if k \<le> j \<and> j < n - k then xs ! (n - 1 - j) else xs ! j)"
proof -
  from assms have m: "min (length xs) k = k" "min (length xs - k) (n - 2 * k) = n - 2 * k"
    by linarith+
  consider "j < k" | "k \<le> j" "j < n - k" | "n - k \<le> j" by linarith
  then show ?thesis
  proof cases
    case 1
    with assms show ?thesis by (simp add: rev_mid_def nth_append m)
  next
    case 2
    with assms have e: "k + (n - 2 * k - Suc (j - k)) = n - 1 - j"
      and c: "\<not> j < k" "j - k < n - 2 * k" "n - 2 * k - Suc (j - k) < n - 2 * k"
      by linarith+
    have "rev_mid k n xs ! j = rev (take (n - 2 * k) (drop k xs)) ! (j - k)"
      using c by (simp add: rev_mid_def nth_append m)
    also have "\<dots> = take (n - 2 * k) (drop k xs) ! (n - 2 * k - Suc (j - k))"
      using c by (simp add: rev_nth m)
    also have "\<dots> = xs ! (k + (n - 2 * k - Suc (j - k)))"
      using c(3) assms by (simp add: nth_drop)
    finally show ?thesis using 2 e by simp
  next
    case 3
    with assms have e: "n - k + (j - k - (n - 2 * k)) = j"
      and c: "\<not> j < k" "\<not> j - k < n - 2 * k" "\<not> (k \<le> j \<and> j < n - k)"
      by linarith+
    have "rev_mid k n xs ! j = drop (n - k) xs ! (j - k - (n - 2 * k))"
      using c by (simp add: rev_mid_def nth_append m)
    also have "\<dots> = xs ! (n - k + (j - k - (n - 2 * k)))"
    proof -
      from assms have "n - k \<le> length xs" by linarith
      then show ?thesis by simp
    qed
    finally show ?thesis using c(3) e by simp
  qed
qed

lemma rev_mid_step:
  assumes "k < n div 2" "n \<le> length xs"
  shows "rev_mid (Suc k) n (xs[k := xs ! (n - Suc k), n - Suc k := xs ! k]) = rev_mid k n xs"
proof (rule nth_equalityI)
  let ?ys = "xs[k := xs ! (n - Suc k), n - Suc k := xs ! k]"
  have k: "Suc k \<le> n div 2" "k \<le> n div 2" using assms by simp_all
  have ly: "n \<le> length ?ys" using assms by simp
  show len: "length (rev_mid (Suc k) n ?ys) = length (rev_mid k n xs)"
    using k ly assms by (simp add: length_rev_mid)
  fix j assume "j < length (rev_mid (Suc k) n ?ys)"
  then have j: "j < length xs" using k ly by (simp add: length_rev_mid)
  then have jy: "j < length ?ys" by simp
  have b: "k < length xs" "n - Suc k < length xs" "k \<noteq> n - Suc k" using assms by linarith+
  have L: "rev_mid (Suc k) n ?ys ! j
           = (if Suc k \<le> j \<and> j < n - Suc k then ?ys ! (n - 1 - j) else ?ys ! j)"
    by (rule nth_rev_mid [OF k(1) ly jy])
  have R: "rev_mid k n xs ! j = (if k \<le> j \<and> j < n - k then xs ! (n - 1 - j) else xs ! j)"
    by (rule nth_rev_mid [OF k(2) assms(2) j])
  consider "j < k" | "j = k" | "Suc k \<le> j" "j < n - Suc k" | "j = n - Suc k" | "n - k \<le> j"
    by linarith
  then show "rev_mid (Suc k) n ?ys ! j = rev_mid k n xs ! j"
  proof cases
    case 1
    with assms have "j \<noteq> n - Suc k" by linarith
    with 1 b show ?thesis unfolding L R by simp
  next
    case 2
    with assms have "j < n - k" "n - 1 - j = n - Suc k" by linarith+
    with 2 b show ?thesis unfolding L R by simp
  next
    case 3
    with assms have "n - 1 - j \<noteq> k" "n - 1 - j \<noteq> n - Suc k" "k \<le> j" "j < n - k"
      by linarith+
    with 3 b show ?thesis unfolding L R by simp
  next
    case 4
    with assms have "\<not> j < n - Suc k" "k \<le> j" "j < n - k" "n - 1 - j = k"
      by linarith+
    with 4 b show ?thesis unfolding L R by simp
  next
    case 5
    with assms have "\<not> j < n - Suc k" "\<not> j < n - k" "j \<noteq> k" "j \<noteq> n - Suc k"
      by linarith+
    with 5 b show ?thesis unfolding L R by simp
  qed
qed

lemma reverse_loop_rev_mid:
  "in_int (int n) \<Longrightarrow> k \<le> n div 2 \<Longrightarrow> n \<le> length str
   \<Longrightarrow> reverse_loop (int n) (int k) str = Inr (rev_mid k n str)"
proof (induction "n div 2 - k" arbitrary: k str)
  case 0
  then have "k = n div 2" by simp
  have "int n sdiv 2 = int (n div 2)" by (simp add: sdiv_nonneg zdiv_int)
  have "rev_mid (n div 2) n str = str"
  proof (rule nth_equalityI)
    show "length (rev_mid (n div 2) n str) = length str"
      using 0 by (simp add: length_rev_mid)
    fix j assume "j < length (rev_mid (n div 2) n str)"
    then have j: "j < length str" using 0 by (simp add: length_rev_mid)
    have "n div 2 \<le> j \<and> j < n - n div 2 \<Longrightarrow> n - 1 - j = j" by linarith
    then show "rev_mid (n div 2) n str ! j = str ! j"
      using nth_rev_mid [OF order_refl "0.prems"(3) j] by auto
  qed
  with 0 \<open>k = n div 2\<close> \<open>int n sdiv 2 = int (n div 2)\<close> show ?case
    by (simp add: reverse_loop_stop)
next
  case (Suc d)
  then have k: "k < n div 2" and d: "d = n div 2 - Suc k" and k': "Suc k \<le> n div 2" by simp_all
  let ?ys = "str[k := str ! (n - Suc k), n - Suc k := str ! k]"
  have "reverse_loop (int n) (int k) str = reverse_loop (int n) (int (Suc k)) ?ys"
    using Suc.prems k by (rule_tac reverse_loop_step)
  also have "\<dots> = Inr (rev_mid (Suc k) n ?ys)"
    using Suc.hyps(1) [OF d Suc.prems(1) k'] Suc.prems(3) by simp
  also have "rev_mid (Suc k) n ?ys = rev_mid k n str"
    using k Suc.prems(3) by (rule rev_mid_step)
  finally show ?case .
qed

lemma rev_mid_0: "n \<le> length xs \<Longrightarrow> rev_mid 0 n xs = rev (take n xs) @ drop n xs"
  by (simp add: rev_mid_def)

lemma size_to_int_range: "in_int (size_to_int n)"
proof -
  have "0 \<le> int n mod 2 ^ 32" "int n mod 2 ^ 32 < 2 ^ 32" by simp_all
  then show ?thesis
    by (auto simp: size_to_int_def Let_def in_int_def INT_MAX_def INT_MIN_def)
qed

lemma size_to_int_le: "size_to_int n \<le> int n"
proof -
  have "int n mod 2 ^ 32 \<le> int n" by (rule zmod_le_nonneg_dividend) simp
  then show ?thesis by (auto simp: size_to_int_def Let_def)
qed

lemma size_to_int_small: "int n \<le> INT_MAX \<Longrightarrow> size_to_int n = int n"
  by (simp add: size_to_int_def Let_def INT_MAX_def)

lemma c_strlen_append:
  assumes "NUL \<notin> set xs"
  shows "c_strlen (xs @ NUL # ys) = Inr (length xs)"
proof -
  have "takeWhile (\<lambda>c. c \<noteq> NUL) (xs @ NUL # ys) = xs @ takeWhile (\<lambda>c. c \<noteq> NUL) (NUL # ys)"
    using assms by (intro takeWhile_append2) auto
  then show ?thesis by (simp add: c_strlen_def)
qed

lemma nul_terminated_split:
  "NUL \<in> set str \<Longrightarrow> \<exists>xs ys. str = xs @ NUL # ys \<and> NUL \<notin> set xs"
  by (rule split_list_first)

lemma reverse_loop_from_0:
  assumes "in_int len" "nat len \<le> length str"
  shows "reverse_loop len 0 str = Inr (rev (take (nat len) str) @ drop (nat len) str)"
proof (cases "0 \<le> len")
  case True
  then have l: "len = int (nat len)" by simp
  have "reverse_loop (int (nat len)) (int 0) str = Inr (rev_mid 0 (nat len) str)"
    using assms l by (intro reverse_loop_rev_mid) simp_all
  with l assms(2) show ?thesis by (simp add: rev_mid_0)
next
  case False
  then have "len sdiv 2 \<le> 0" by (simp add: sdiv_2_nonpos)
  with assms(1) False show ?thesis by (simp add: reverse_loop_stop)
qed

lemma size_to_int_nat_le: "nat (size_to_int n) \<le> n"
  using size_to_int_le [of n] by linarith

lemma reverseString_split:
  assumes "NUL \<notin> set xs" and m: "m = nat (size_to_int (length xs))"
  shows "reverseString (xs @ NUL # ys) = Inr (rev (take m xs) @ drop m xs @ NUL # ys)"
proof -
  have le: "m \<le> length xs" using size_to_int_nat_le [of "length xs"] m by simp
  then have "nat (size_to_int (length xs)) \<le> length (xs @ NUL # ys)" using m by simp
  from reverse_loop_from_0 [OF size_to_int_range this] le m assms(1)
  show ?thesis
    by (simp add: reverseString_def c_strlen_append)
qed

lemma reverseString_in_range:
  assumes "NUL \<notin> set xs" "int (length xs) \<le> INT_MAX"
  shows "reverseString (xs @ NUL # ys) = Inr (rev xs @ NUL # ys)"
  using reverseString_split [OF assms(1) refl, of ys] assms(2)
  by (simp add: size_to_int_small)

lemma reverseString_hello_world: "reverseString (''Hello World'' @ [NUL]) = Inr (''dlroW olleH'' @ [NUL])"
  using reverseString_in_range [of "''Hello World''" "[]"]
  by (simp add: NUL_def INT_MAX_def)

lemma reverseString_prefix:
  assumes "NUL \<notin> set xs"
  obtains xs' where "reverseString (xs @ NUL # ys) = Inr (xs' @ NUL # ys)"
    and "NUL \<notin> set xs'" and "length xs' = length xs" and "mset xs' = mset xs"
    and "reverseString (xs' @ NUL # ys) = Inr (xs @ NUL # ys)"
proof -
  define m where "m = nat (size_to_int (length xs))"
  define xs' where "xs' = rev (take m xs) @ drop m xs"
  have le: "m \<le> length xs"
    unfolding m_def by (rule size_to_int_nat_le)
  have r: "reverseString (xs @ NUL # ys) = Inr (xs' @ NUL # ys)"
    using reverseString_split [OF assms m_def, of ys] by (simp add: xs'_def)
  have "set xs' = set (take m xs @ drop m xs)"
    unfolding xs'_def by (simp only: set_append set_rev)
  with assms have x': "NUL \<notin> set xs'" by simp
  have l: "length xs' = length xs" using le by (simp add: xs'_def)
  have "mset xs' = mset (take m xs @ drop m xs)"
    unfolding xs'_def by (simp only: mset_append mset_rev)
  then have ms: "mset xs' = mset xs" by simp
  have m': "m = nat (size_to_int (length xs'))" using l m_def by simp
  have undo: "rev (take m xs') @ drop m xs' = xs" using le by (simp add: xs'_def)
  have "reverseString (xs' @ NUL # ys) = Inr ((rev (take m xs') @ drop m xs') @ NUL # ys)"
    using reverseString_split [OF x' m', of ys] by simp
  then have "reverseString (xs' @ NUL # ys) = Inr (xs @ NUL # ys)"
    by (simp only: undo)
  with r x' l ms show thesis by (rule that)
qed

lemma size_to_int_2G: "size_to_int 2147483648 = - 2147483648"
  by (simp add: size_to_int_def Let_def)

text \<open>
  C2: \<^verbatim>\<open>reverseString\<close> is claimed to reverse every terminated string.
  \<open>long_text\<close> is a terminated string of \<open>2 ^ 31\<close> characters, all of them \<open>a\<close> but
  the last, which is \<open>b\<close>. \<^verbatim>\<open>int len = strlen(str)\<close> cannot hold that length:
  \<^verbatim>\<open>len\<close> becomes \<open>- 2 ^ 31\<close>, the loop body never runs, and the call returns
  with the array as it was, so the character at index 0 is not the original last one.
\<close>

theorem reverseString_long_text:
  "c_strlen long_text = Inr 2147483648 \<and> reverseString long_text = Inr long_text
   \<and> long_text ! 0 \<noteq> long_text ! (2147483648 - 1 - 0)"
proof -
  define xs where "xs = replicate 2147483647 (CHR ''a'') @ [CHR ''b'']"
  have t: "long_text = xs @ NUL # []" by (simp add: long_text_def xs_def)
  have x: "NUL \<notin> set xs" by (simp add: xs_def NUL_def)
  have l: "length xs = 2147483648" by (simp add: xs_def)
  have "c_strlen long_text = Inr 2147483648"
    unfolding t using c_strlen_append [OF x, of "[]"] l by simp
  moreover have "reverseString long_text = Inr long_text"
    unfolding t using reverseString_split [OF x refl, of "[]"] by (simp add: l size_to_int_2G)
  moreover have "long_text ! 0 = CHR ''a''"
    by (simp add: long_text_def nth_append)
  moreover have "long_text ! (2147483648 - 1 - 0) = CHR ''b''"
    by (simp add: long_text_def nth_append)
  ultimately show ?thesis by simp
qed

text \<open>
  Where the length fits in \<^verbatim>\<open>int\<close> the loop does what it is written for: for every
  array holding a terminated string of length \<open>n \<le> INT_MAX\<close>, \<^verbatim>\<open>reverseString\<close>
  returns with the first \<open>n\<close> bytes reversed and the rest as it was, so that the
  character at index \<open>i < n\<close> is the original one at \<open>n - 1 - i\<close>; a string of length
  0 or 1 is unchanged; and "Hello World" becomes "dlroW olleH".
\<close>

lemma reverseString_reverses:
  "(c_strlen str = Inr n \<and> int n \<le> INT_MAX \<longrightarrow>
      reverseString str = Inr (rev (take n str) @ drop n str)
      \<and> (\<forall>i<n. (rev (take n str) @ drop n str) ! i = str ! (n - 1 - i))
      \<and> (n \<le> 1 \<longrightarrow> rev (take n str) @ drop n str = str))
   \<and> reverseString (''Hello World'' @ [NUL]) = Inr (''dlroW olleH'' @ [NUL])"
proof -
  have "reverseString str = Inr (rev (take n str) @ drop n str)
      \<and> (\<forall>i<n. (rev (take n str) @ drop n str) ! i = str ! (n - 1 - i))
      \<and> (n \<le> 1 \<longrightarrow> rev (take n str) @ drop n str = str)"
    if len: "c_strlen str = Inr n" and small: "int n \<le> INT_MAX"
  proof -
    from len have "NUL \<in> set str" by (simp add: c_strlen_def split: if_splits)
    then obtain xs ys where s: "str = xs @ NUL # ys" and x: "NUL \<notin> set xs"
      using nul_terminated_split by blast
    with len have n: "n = length xs" by (simp add: c_strlen_append)
    let ?r = "rev xs @ NUL # ys"
    have t: "rev (take n str) @ drop n str = ?r" by (simp add: s n)
    have r: "reverseString str = Inr ?r"
      using reverseString_in_range [OF x] small n s by simp
    have "\<forall>i<n. ?r ! i = str ! (n - 1 - i)"
    proof (intro allI impI)
      fix i assume "i < n"
      then have "i < length xs" "length xs - Suc i < length xs"
        using n by linarith+
      then show "?r ! i = str ! (n - 1 - i)"
        by (simp add: s n nth_append rev_nth)
    qed
    moreover have "n \<le> 1 \<longrightarrow> ?r = str"
      using n s by (cases xs) auto
    ultimately show ?thesis using r unfolding t by blast
  qed
  then show ?thesis using reverseString_hello_world by blast
qed

lemma reverseString_reverses_example:
  "c_strlen (''abc'' @ [NUL]) = Inr 3 \<and> int 3 \<le> INT_MAX
   \<and> reverseString (''abc'' @ [NUL]) = Inr (''cba'' @ [NUL])"
proof -
  have h: "c_strlen (''abc'' @ [NUL]) = Inr 3"
    using c_strlen_append [of "''abc''" "[]"] by (simp add: NUL_def)
  have b: "int 3 \<le> INT_MAX" by (simp add: INT_MAX_def)
  from reverseString_reverses [of "''abc'' @ [NUL]" 3] h b
  have "reverseString (''abc'' @ [NUL])
        = Inr (rev (take 3 (''abc'' @ [NUL])) @ drop 3 (''abc'' @ [NUL]))"
    by blast
  then show ?thesis using h b by simp
qed

text \<open>
  C5: on every array holding a terminated string, \<^verbatim>\<open>reverseString\<close> applied twice
  restores the array.
\<close>

theorem reverseString_involution:
  assumes "NUL \<in> set str"
  shows "bind_result (reverseString str) reverseString = Inr str"
proof -
  from assms obtain xs ys where s: "str = xs @ NUL # ys" and x: "NUL \<notin> set xs"
    using nul_terminated_split by blast
  from reverseString_prefix [OF x, of ys] obtain xs'
    where "reverseString (xs @ NUL # ys) = Inr (xs' @ NUL # ys)"
      and "reverseString (xs' @ NUL # ys) = Inr (xs @ NUL # ys)"
    by metis
  then show ?thesis by (simp add: s)
qed

theorem reverseString_involution_witness:
  "NUL \<in> set (''Hello World'' @ [NUL])
   \<and> bind_result (reverseString (''Hello World'' @ [NUL])) reverseString
       = Inr (''Hello World'' @ [NUL])"
proof -
  have h: "NUL \<in> set (''Hello World'' @ [NUL])" by simp
  from reverseString_involution [OF h] h show ?thesis by (rule_tac conjI)
qed

text \<open>
  C10: on every array holding a terminated string of length \<open>n\<close>,
  \<^verbatim>\<open>reverseString\<close> returns an array of the same size whose string has the same
  length and the same characters with the same multiplicities, with the terminator and
  everything after it where they were.
\<close>

theorem reverseString_preserves:
  assumes "c_strlen str = Inr n"
  shows "\<exists>str'. reverseString str = Inr str' \<and> length str' = length str
           \<and> c_strlen str' = Inr n
           \<and> mset (take n str') = mset (take n str)
           \<and> drop n str' = drop n str \<and> str' ! n = NUL"
proof -
  from assms have "NUL \<in> set str" by (simp add: c_strlen_def split: if_splits)
  then obtain xs ys where s: "str = xs @ NUL # ys" and x: "NUL \<notin> set xs"
    using nul_terminated_split by blast
  with assms have n: "n = length xs" by (simp add: c_strlen_append)
  from reverseString_prefix [OF x, of ys] obtain xs'
    where r: "reverseString (xs @ NUL # ys) = Inr (xs' @ NUL # ys)"
      and x': "NUL \<notin> set xs'" and l: "length xs' = length xs" and ms: "mset xs' = mset xs"
    by metis
  have "c_strlen (xs' @ NUL # ys) = Inr n"
    using c_strlen_append [OF x'] l n by simp
  moreover have "mset (take n (xs' @ NUL # ys)) = mset (take n str)"
    using l ms n s by simp
  moreover have "drop n (xs' @ NUL # ys) = drop n str"
    using l n s by simp
  moreover have "(xs' @ NUL # ys) ! n = NUL"
    using l n by (simp add: nth_append)
  moreover have "length (xs' @ NUL # ys) = length str"
    using l n s by simp
  ultimately show ?thesis using r s by blast
qed

theorem reverseString_preserves_witness:
  "c_strlen (''abca'' @ [NUL]) = Inr 4
   \<and> (\<exists>str'. reverseString (''abca'' @ [NUL]) = Inr str'
         \<and> length str' = length (''abca'' @ [NUL])
         \<and> c_strlen str' = Inr 4
         \<and> mset (take 4 str') = mset (take 4 (''abca'' @ [NUL]))
         \<and> drop 4 str' = drop 4 (''abca'' @ [NUL]) \<and> str' ! 4 = NUL)"
proof -
  have h: "c_strlen (''abca'' @ [NUL]) = Inr 4"
    using c_strlen_append [of "''abca''" "[]"] by (simp add: NUL_def)
  from h reverseString_preserves [OF h] show ?thesis by (rule conjI)
qed

section \<open>Properties of the driver\<close>

lemma dec_digits_small: "n < 10 \<Longrightarrow> dec_digits n = [digit n]"
  by (simp add: dec_digits.simps)

lemma dec_digits_big: "10 \<le> n \<Longrightarrow> dec_digits n = dec_digits (n div 10) @ [digit (n mod 10)]"
  by (subst dec_digits.simps) simp

lemmas printf_eval = printf_d_def dec_digits_small dec_digits_big digit_def

lemma print_loop_step:
  "in_int i \<Longrightarrow> i \<le> 10 \<Longrightarrow> print_loop i out = print_loop (i + 1) (out @ printf_d i @ '' '')"
  by (subst print_loop.simps) (simp add: c_arith)

lemma print_loop_stop: "10 < i \<Longrightarrow> print_loop i out = Inr out"
  by (subst print_loop.simps) simp

lemma print_loop_from_1: "print_loop 1 out = Inr (out @ ''1 2 3 4 5 6 7 8 9 10 '')"
  by (simp add: print_loop_step print_loop_stop printf_eval in_int_def INT_MAX_def INT_MIN_def)

lemma sum_loop_step:
  "0 \<le> i \<Longrightarrow> i < sz \<Longrightarrow> i < int (length xs) \<Longrightarrow> in_int (s + xs ! nat i) \<Longrightarrow> in_int (i + 1)
   \<Longrightarrow> sum_loop xs sz i s = sum_loop xs sz (i + 1) (s + xs ! nat i)"
  by (subst sum_loop.simps) (simp add: load_def c_add_def c_int_def)

lemma sum_loop_stop: "sz \<le> i \<Longrightarrow> sum_loop xs sz i s = Inr s"
  by (subst sum_loop.simps) simp

lemma sum_numbers: "sum_loop numbers (int (length numbers)) 0 0 = Inr 45"
  by (simp add: numbers_def sum_loop_step sum_loop_stop in_int_def INT_MAX_def INT_MIN_def)

lemma float_of_int_values: "float_of_int 45 = Inr 45" "float_of_int 9 = Inr 9"
  by (simp_all add: float_of_int_def)

lemma float_div_45_9: "float_div 45 9 = Inr 5"
proof -
  have "(45::rat) / 9 = 5" by simp
  then show ?thesis unfolding float_div_def by simp
qed

lemma round_half_even_500: "round_half_even 500 = 500"
  by (simp add: round_half_even_def)

lemma printf_2f_5: "printf_2f 5 = ''5.00''"
proof -
  have "nat (round_half_even (\<bar>5\<bar> * 100)) = 500"
    by (simp add: round_half_even_500)
  then show ?thesis
    by (simp add: printf_2f_def dec_digits_small digit_def)
qed

lemma average_45_9: "average_text 45 9 = Inr ''5.00''"
  by (simp add: average_text_def float_of_int_values float_div_45_9 printf_2f_5)

lemma isPrime_17: "isPrime 17 = Inr 1"
  by (simp add: isPrime_def c_rem_def in_int_def INT_MAX_def INT_MIN_def sdiv_nonneg smod_nonneg
      isPrime_loop_exit)

lemma printf_s_text: "NUL \<notin> set xs \<Longrightarrow> printf_s (xs @ NUL # ys) = Inr xs"
  by (simp add: printf_s_def c_strlen_append)

text \<open>
  C6: the loop over \<open>numbers\<close>, which is 3, 7, 1, 9, 4, 6, 2, 8, 5, ends with the sum 45,
  and the average of 45 over the 9 elements is printed as 5.00.
\<close>

theorem array_demo:
  "sum_loop numbers (int (length numbers)) 0 0 = Inr 45
   \<and> average_text 45 (int (length numbers)) = Inr ''5.00''"
proof -
  have "int (length numbers) = 9" by (simp add: numbers_def)
  with sum_numbers average_45_9 show ?thesis by simp
qed

text \<open>
  C7, as stated: the loop's output is not exactly "1 2 3 4 5 6 7 8 9 10".
\<close>

theorem print_loop_not_trimmed: "print_loop 1 [] \<noteq> Inr ''1 2 3 4 5 6 7 8 9 10''"
  by (simp add: print_loop_step print_loop_stop printf_eval in_int_def INT_MAX_def INT_MIN_def)

text \<open>
  C7, amended: the loop appends each of the integers 1 to 10 followed by one space, that
  is "1 2 3 4 5 6 7 8 9 10 " with a space after the 10.
\<close>

theorem print_loop_output: "print_loop 1 out = Inr (out @ ''1 2 3 4 5 6 7 8 9 10 '')"
  by (simp add: print_loop_step print_loop_stop printf_eval in_int_def INT_MAX_def INT_MIN_def)

text \<open>
  C8: \<^verbatim>\<open>main\<close> takes no input, runs its demonstrations in order without an error
  and returns 0, having written the expected text.
\<close>

theorem main_completes: "main = Inr (expected_output, 0)"
proof -
  have p1: "printf_s (''Hello World'' @ [NUL]) = Inr ''Hello World''"
    by (rule printf_s_text) (simp add: NUL_def)
  have p2: "printf_s (''dlroW olleH'' @ [NUL]) = Inr ''dlroW olleH''"
    by (rule printf_s_text) (simp add: NUL_def)
  have n: "int (length numbers) = 9" by (simp add: numbers_def)
  have s: "sum_loop numbers 9 0 0 = Inr 45" using sum_numbers by (simp only: n)
  show ?thesis
    unfolding main_def Let_def factorial_values isPrime_17 p1 reverseString_hello_world p2 print_loop_from_1 n s
      average_45_9 bind_result_simps expected_output_def
    by (simp add: printf_eval)
qed

end
